theory Spec2Isabelle
  imports Main "HOL-Library.AList"
begin

section \<open>Retry with backoff: \<open>withRetry\<close> (parsers/instagram.ts, second part of src/src/parsers/telegram.ts)\<close>

text \<open>
  What an operation throws is either an \<open>Error\<close> object (kept as it is) or some other
  value, which \<open>withRetry\<close> wraps as \<open>new Error(String(error))\<close>. Both carry their text.
\<close>

datatype thrown = ErrorObj string | NonError string

fun as_Error :: "thrown \<Rightarrow> thrown" where
  "as_Error (ErrorObj m) = ErrorObj m"
| "as_Error (NonError v) = ErrorObj v"

fun message :: "thrown \<Rightarrow> string" where
  "message (ErrorObj m) = m"
| "message (NonError v) = v"

text \<open>
  The observable effects of one run, in order: the calls of the operation (numbered by
  attempt), the \<open>setTimeout\<close> waits in milliseconds, and the two kinds of log entry with
  the fields the source gives them (correlation id, attempt, maxAttempts, error message).
\<close>

datatype effect =
    Invoke nat
  | Sleep int
  | LogDebug string nat nat
  | LogWarn string nat nat string

text \<open>\<open>Math.min(1000 * Math.pow(2, attempt - 1), 10000)\<close>\<close>

definition backoff :: "nat \<Rightarrow> int" where
  "backoff attempt = min (1000 * 2 ^ (attempt - 1)) 10000"

text \<open>
  The operation is called once per attempt; \<open>operation k\<close> is the outcome of its \<open>k\<close>-th
  call. \<open>lastError\<close> is unassigned (\<open>None\<close>) until an attempt has failed, and the final
  \<open>throw lastError\<close> propagates whatever it holds.
\<close>

function retry_loop ::
  "(nat \<Rightarrow> thrown + 'a) \<Rightarrow> nat \<Rightarrow> string \<Rightarrow> nat \<Rightarrow> thrown option \<Rightarrow> effect list
     \<Rightarrow> (thrown option + 'a) \<times> effect list" where
  "retry_loop operation maxAttempts correlationId attempt lastError tr =
     (if attempt \<le> maxAttempts then
        (case operation attempt of
           Inr v \<Rightarrow>
             (Inr v, tr @ [LogDebug correlationId attempt maxAttempts, Invoke attempt])
         | Inl e \<Rightarrow>
             (let lastError' = as_Error e;
                  tr' = tr @ [LogDebug correlationId attempt maxAttempts, Invoke attempt,
                              LogWarn correlationId attempt maxAttempts (message lastError')]
              in if attempt < maxAttempts
                 then retry_loop operation maxAttempts correlationId (attempt + 1)
                        (Some lastError') (tr' @ [Sleep (backoff attempt)])
                 else retry_loop operation maxAttempts correlationId (attempt + 1)
                        (Some lastError') tr'))
      else (Inl lastError, tr))"
  by pat_completeness auto
termination
  by (relation "measure (\<lambda>(operation, maxAttempts, correlationId, attempt, lastError, tr).
        Suc maxAttempts - attempt)") auto

declare retry_loop.simps [simp del]

definition withRetry ::
  "(nat \<Rightarrow> thrown + 'a) \<Rightarrow> nat \<Rightarrow> string \<Rightarrow> (thrown option + 'a) \<times> effect list" where
  "withRetry operation maxAttempts correlationId =
     retry_loop operation maxAttempts correlationId 1 None []"

text \<open>The calls and waits of a run, without the log entries.\<close>

fun timeline :: "effect list \<Rightarrow> effect list" where
  "timeline [] = []"
| "timeline (Invoke k # es) = Invoke k # timeline es"
| "timeline (Sleep d # es) = Sleep d # timeline es"
| "timeline (e # es) = timeline es"

fun invocations :: "effect list \<Rightarrow> nat list" where
  "invocations [] = []"
| "invocations (Invoke k # es) = k # invocations es"
| "invocations (e # es) = invocations es"

fun waits :: "effect list \<Rightarrow> int list" where
  "waits [] = []"
| "waits (Sleep d # es) = d # waits es"
| "waits (e # es) = waits es"

text \<open>
  The calls and waits of attempts \<open>a\<close> to \<open>m\<close> when all but the last are followed by a
  wait: call, wait, call, wait, ..., call.
\<close>

definition pattern :: "nat \<Rightarrow> nat \<Rightarrow> effect list" where
  "pattern a m = concat (map (\<lambda>j. [Invoke j, Sleep (backoff j)]) [a..<m]) @ [Invoke m]"

text \<open>An operation that fails on its first two calls and succeeds on the third.\<close>

definition flaky3 :: "nat \<Rightarrow> thrown + string" where
  "flaky3 k = (if k < 3 then Inl (ErrorObj ''net::ERR_TIMED_OUT'') else Inr ''ok'')"

definition always_failing :: "nat \<Rightarrow> thrown + string" where
  "always_failing k = Inl (ErrorObj ''boom'')"


section \<open>Health aggregation: \<open>determineOverallStatus\<close> (src/src/routes/health.ts)\<close>

datatype status = Healthy | Degraded | Unhealthy

text \<open>
  The \<open>status\<close> fields of \<open>HealthStatus['services']\<close>; \<open>playwright\<close> is optional.
\<close>

record services =
  redis :: status
  instagram_queue :: status
  browser_pool :: status
  playwright :: "status option"

definition determineOverallStatus :: "services \<Rightarrow> status" where
  "determineOverallStatus s =
     (let statuses = [redis s, instagram_queue s, browser_pool s,
                      (case playwright s of Some p \<Rightarrow> p | None \<Rightarrow> Healthy)]
      in if Unhealthy \<in> set statuses then Unhealthy
         else if Degraded \<in> set statuses then Degraded
         else Healthy)"


section \<open>Browser pool: \<open>BrowserPool\<close> (browser/browser-pool.ts, in src/unnamed/part_002)\<close>

text \<open>
  \<open>config.browser\<close>, read once at startup. The settings are taken as integers.
\<close>

record browser_config =
  poolSize :: int
  idleTimeout :: int
  launchTimeout :: int

text \<open>
  A launched browser is known here by the one launch option that varies, the proxy server
  (\<open>None\<close>: launched without \<open>launchOptions.proxy\<close>); a context by the instance it was
  created for. Timestamps are \<open>Date.now()\<close> in milliseconds. The field \<open>id\<close> is
  \<open>inst_id\<close> here and the field \<open>context\<close> is \<open>ctx\<close>.
\<close>

datatype browser_context = ContextOf string

record browser_instance =
  browser :: "string option"
  ctx :: browser_context
  createdAt :: int
  lastUsed :: int
  isActive :: bool
  inst_id :: string

text \<open>
  \<open>instances\<close> is a JavaScript \<open>Map\<close>: an association list in insertion order, where
  \<open>set\<close> is \<open>AList.update\<close> (replace in place, or append), \<open>delete\<close> is
  \<open>AList.delete\<close>, \<open>get\<close> is \<open>map_of\<close> and \<open>size\<close> is the length.
  \<open>cleanupInterval\<close> tells whether the sweep timer is armed.
\<close>

record pool =
  instances :: "(string \<times> browser_instance) list"
  cleanupInterval :: bool
  isShuttingDown :: bool

definition new_pool :: pool where
  "new_pool = \<lparr>instances = [], cleanupInterval = True, isShuttingDown = False\<rparr>"

text \<open>
  The entries of a \<open>Map\<close> have distinct keys, and \<open>createBrowserInstance\<close> stores every
  instance under its own \<open>id\<close>.
\<close>

definition wf_pool :: "pool \<Rightarrow> bool" where
  "wf_pool st \<longleftrightarrow>
     distinct (map fst (instances st)) \<and>
     list_all (\<lambda>(k, i). inst_id i = k) (instances st)"

text \<open>
  An instance found in the map is mutated in place; the model writes the changed
  instance back under its id.
\<close>

definition store :: "pool \<Rightarrow> browser_instance \<Rightarrow> pool" where
  "store st i = st\<lparr>instances := AList.update (inst_id i) i (instances st)\<rparr>"

text \<open>The first instance, in map order, that is not active. The proxy is not looked at.\<close>

definition findAvailableInstance :: "pool \<Rightarrow> string option \<Rightarrow> browser_instance option" where
  "findAvailableInstance st proxy = find (\<lambda>instance. \<not> isActive instance) (map snd (instances st))"

text \<open>\<open>if (_proxy)\<close>: a proxy that is given and not the empty string.\<close>

definition truthy :: "string option \<Rightarrow> bool" where
  "truthy proxy = (case proxy of None \<Rightarrow> False | Some p \<Rightarrow> p \<noteq> [])"

text \<open>
  \<open>createBrowserInstance\<close> after its two awaits (\<open>chromium.launch\<close>,
  \<open>browser.newContext\<close>) have settled: \<open>launch\<close> is \<open>Some e\<close> when one of them threw
  \<open>e\<close>, and \<open>st\<close> is the pool as it is at that moment. The id was drawn
  (\<open>Math.random\<close>) before the awaits.
\<close>

definition createBrowserInstance ::
  "pool \<Rightarrow> string \<Rightarrow> string option \<Rightarrow> thrown option \<Rightarrow> int \<Rightarrow> (thrown + browser_instance) \<times> pool" where
  "createBrowserInstance st instanceId proxy launch now =
     (case launch of
        Some e \<Rightarrow> (Inl e, st)
      | None \<Rightarrow>
          (let instance = \<lparr>browser = (if truthy proxy then proxy else None),
                            ctx = ContextOf instanceId,
                            createdAt = now, lastUsed = now, isActive = True,
                            inst_id = instanceId\<rparr>
           in (Inr instance, st\<lparr>instances := AList.update instanceId instance (instances st)\<rparr>)))"

text \<open>
  \<open>getBrowserContext\<close> up to its first await. It throws, returns a reused instance,
  suspends on the launch of a new instance, or suspends in \<open>waitForAvailableInstance\<close>.
\<close>

datatype acquire =
    Throws thrown
  | Returns browser_context string
  | AwaitLaunch string "string option"
  | AwaitRelease "string option"

definition getBrowserContext_begin ::
  "browser_config \<Rightarrow> pool \<Rightarrow> string option \<Rightarrow> string \<Rightarrow> int \<Rightarrow> acquire \<times> pool" where
  "getBrowserContext_begin cfg st proxy instanceId now =
     (if isShuttingDown st then (Throws (ErrorObj ''Browser pool is shutting down''), st)
      else case findAvailableInstance st proxy of
        Some availableInstance \<Rightarrow>
          (Returns (ctx availableInstance) (inst_id availableInstance),
           store st (availableInstance\<lparr>lastUsed := now, isActive := True\<rparr>))
      | None \<Rightarrow>
          if int (length (instances st)) < poolSize cfg
          then (AwaitLaunch instanceId proxy, st)
          else (AwaitRelease proxy, st))"

text \<open>
  \<open>waitForAvailableInstance\<close>: every 100 ms the pool is searched again. Each element of
  \<open>ticks\<close> is the pool as the other callers have left it when the interval fires, with the
  time; the list ends where the 30 s timer fires.
\<close>

fun waitForAvailableInstance ::
  "pool \<Rightarrow> string option \<Rightarrow> (pool \<times> int) list \<Rightarrow> (thrown + browser_context \<times> string) \<times> pool" where
  "waitForAvailableInstance st proxy [] =
     (Inl (ErrorObj ''Timeout waiting for available browser instance''), st)"
| "waitForAvailableInstance st proxy ((st', now) # ticks) =
     (case findAvailableInstance st' proxy of
        Some available \<Rightarrow>
          (Inr (ctx available, inst_id available),
           store st' (available\<lparr>lastUsed := now, isActive := True\<rparr>))
      | None \<Rightarrow> waitForAvailableInstance st' proxy ticks)"

text \<open>
  A whole call of \<open>getBrowserContext\<close> when nothing else touches the pool between its
  first part and the end of the launch.
\<close>

definition getBrowserContext ::
  "browser_config \<Rightarrow> pool \<Rightarrow> string option \<Rightarrow> string \<Rightarrow> thrown option \<Rightarrow> int
     \<Rightarrow> (pool \<times> int) list \<Rightarrow> (thrown + browser_context \<times> string) \<times> pool" where
  "getBrowserContext cfg st proxy instanceId launch now ticks =
     (case getBrowserContext_begin cfg st proxy instanceId now of
        (Throws e, st') \<Rightarrow> (Inl e, st')
      | (Returns c i, st') \<Rightarrow> (Inr (c, i), st')
      | (AwaitLaunch i p, st') \<Rightarrow>
          (case createBrowserInstance st' i p launch now of
             (Inl e, st'') \<Rightarrow> (Inl e, st'')
           | (Inr instance, st'') \<Rightarrow> (Inr (ctx instance, inst_id instance), st''))
      | (AwaitRelease p, st') \<Rightarrow> waitForAvailableInstance st' p ticks)"

definition releaseBrowserContext :: "pool \<Rightarrow> string \<Rightarrow> int \<Rightarrow> pool" where
  "releaseBrowserContext st instanceId now =
     (case map_of (instances st) instanceId of
        None \<Rightarrow> st
      | Some instance \<Rightarrow>
          st\<lparr>instances :=
               AList.update instanceId (instance\<lparr>isActive := False, lastUsed := now\<rparr>) (instances st)\<rparr>)"

text \<open>
  The first, synchronous part of \<open>cleanupIdleInstances\<close>: one pass over the map at time
  \<open>now\<close> collects the ids of the instances that are not active and whose idle time
  exceeds \<open>idleTimeout\<close>. The closes that follow are awaited one by one; they are pieces
  of their own (below).
\<close>

definition instancesToCleanup :: "browser_config \<Rightarrow> pool \<Rightarrow> int \<Rightarrow> string list" where
  "instancesToCleanup cfg st now =
     map fst (filter (\<lambda>(k, instance). \<not> isActive instance \<and> now - lastUsed instance > idleTimeout cfg)
                     (instances st))"

record pool_stats =
  totalInstances :: nat
  activeInstances :: nat
  idleInstances :: nat
  oldestInstance :: int
  stats_poolSize :: int
  stats_isShuttingDown :: bool

definition getStats :: "browser_config \<Rightarrow> pool \<Rightarrow> int \<Rightarrow> pool_stats" where
  "getStats cfg st now =
     (let insts = map snd (instances st)
      in \<lparr>totalInstances = length insts,
          activeInstances = length (filter isActive insts),
          idleInstances = length (filter (\<lambda>i. \<not> isActive i) insts),
          oldestInstance = (case map (\<lambda>i. now - createdAt i) insts of
                              [] \<Rightarrow> 0
                            | a # as \<Rightarrow> fold min as a),
          stats_poolSize = poolSize cfg,
          stats_isShuttingDown = isShuttingDown st\<rparr>)"

text \<open>
  \<open>withBrowserContext\<close>: acquire, run the task, release in \<open>finally\<close>. The task gets the
  context and the pool as it is after the acquisition, and yields its outcome with the pool
  as it is when the task settles (other callers may have used the pool meanwhile).
\<close>

definition withBrowserContext ::
  "browser_config \<Rightarrow> pool \<Rightarrow> (browser_context \<Rightarrow> pool \<Rightarrow> (thrown + 'a) \<times> pool) \<Rightarrow> string option
     \<Rightarrow> string \<Rightarrow> thrown option \<Rightarrow> int \<Rightarrow> (pool \<times> int) list \<Rightarrow> int \<Rightarrow> (thrown + 'a) \<times> pool" where
  "withBrowserContext cfg st task proxy instanceId launch now ticks released =
     (case getBrowserContext cfg st proxy instanceId launch now ticks of
        (Inl e, st1) \<Rightarrow> (Inl e, st1)
      | (Inr (c, acquiredId), st1) \<Rightarrow>
          (case task c st1 of
             (outcome, st2) \<Rightarrow> (outcome, releaseBrowserContext st2 acquiredId released)))"

subsection \<open>Overlapping calls\<close>

text \<open>
  Calls overlap at their awaits. Between two awaits a call runs alone, so a run of the pool
  is a sequence of such pieces: a call of \<open>getBrowserContext\<close> up to its first await, the
  end of a pending launch, one firing of a waiting caller's interval, a release, the start
  of a sweep, the end of a close that a sweep awaits, the start of a shutdown, the end of a
  close that a shutdown awaits.

  Beside the pool the state keeps what is in flight: the pending launches; the waiting
  callers; for every sweep that has started the ids it still has to close, the close of
  the first being awaited; for every call of \<open>shutdown\<close> the ids whose close has not
  settled yet. It also records which contexts and which browsers have been closed, named
  by the id of their instance.
\<close>

record pool_system =
  the_pool :: pool
  launching :: "(string \<times> string option) list"
  waiters :: "string option list"
  sweeps :: "string list list"
  shutdowns :: "string list list"
  closedContexts :: "string list"
  closedBrowsers :: "string list"

definition new_system :: pool_system where
  "new_system = \<lparr>the_pool = new_pool, launching = [], waiters = [], sweeps = [],
                  shutdowns = [], closedContexts = [], closedBrowsers = []\<rparr>"

text \<open>
  \<open>closeBrowserInstance\<close> awaits \<open>instance.context.close()\<close> and then
  \<open>instance.browser.close()\<close>. Its first piece looks the id up: without an instance it
  returns at once, with one it starts closing the context and suspends.
\<close>

definition closeBrowserInstance_begin :: "pool \<Rightarrow> string \<Rightarrow> bool" where
  "closeBrowserInstance_begin st instanceId =
     (case map_of (instances st) instanceId of None \<Rightarrow> False | Some instance \<Rightarrow> True)"

text \<open>
  How the two closes end: both succeed; closing the context throws, and the browser is
  never asked to close; or the context is closed and closing the browser throws.
\<close>

datatype close_outcome = Closed | ContextCloseThrows thrown | BrowserCloseThrows thrown

text \<open>\<open>this.instances.delete(instanceId)\<close>\<close>

definition delete_instance :: "pool_system \<Rightarrow> string \<Rightarrow> pool_system" where
  "delete_instance sys instanceId =
     sys\<lparr>the_pool := (the_pool sys)\<lparr>instances := AList.delete instanceId (instances (the_pool sys))\<rparr>\<rparr>"

text \<open>
  The second piece of \<open>closeBrowserInstance\<close>, when the awaited closes have ended: the
  id is deleted from the map as it is then, in the \<open>try\<close> block and in the \<open>catch\<close> block
  alike. The instance is not looked at again.
\<close>

definition closeBrowserInstance_end :: "pool_system \<Rightarrow> string \<Rightarrow> close_outcome \<Rightarrow> pool_system" where
  "closeBrowserInstance_end sys instanceId outcome =
     (case outcome of
        Closed \<Rightarrow>
          (delete_instance sys instanceId)
            \<lparr>closedContexts := closedContexts sys @ [instanceId],
             closedBrowsers := closedBrowsers sys @ [instanceId]\<rparr>
      | ContextCloseThrows e \<Rightarrow> delete_instance sys instanceId
      | BrowserCloseThrows e \<Rightarrow>
          (delete_instance sys instanceId)\<lparr>closedContexts := closedContexts sys @ [instanceId]\<rparr>)"

text \<open>
  \<open>cleanupIdleInstances\<close> up to its first await: the ids are collected, and if there are
  any the close of the first one starts (it is in the map, having just been read there).
\<close>

definition cleanupIdleInstances_begin :: "browser_config \<Rightarrow> pool_system \<Rightarrow> int \<Rightarrow> pool_system" where
  "cleanupIdleInstances_begin cfg sys now =
     (let ids = instancesToCleanup cfg (the_pool sys) now
      in if length ids > 0 then sys\<lparr>sweeps := sweeps sys @ [ids]\<rparr> else sys)"

text \<open>
  The close that sweep number \<open>n\<close> awaits has ended: its id leaves the map, and the loop
  goes on to the next id. A next id that is no longer in the map is passed over
  (\<open>closeBrowserInstance\<close> returns at once); at the first one that is, the sweep
  suspends again.
\<close>

definition cleanupIdleInstances_resume :: "pool_system \<Rightarrow> nat \<Rightarrow> close_outcome \<Rightarrow> pool_system" where
  "cleanupIdleInstances_resume sys n outcome =
     (if n < length (sweeps sys)
      then (case sweeps sys ! n of
              [] \<Rightarrow> sys
            | instanceId # rest \<Rightarrow>
                (let sys' = closeBrowserInstance_end sys instanceId outcome
                 in sys'\<lparr>sweeps := (sweeps sys')
                          [n := dropWhile (\<lambda>i. \<not> closeBrowserInstance_begin (the_pool sys') i) rest]\<rparr>))
      else sys)"

text \<open>
  \<open>shutdown\<close> up to its await: the flag is set, the timer cleared, and
  \<open>closeBrowserInstance\<close> is started for every key of the map, all of them together.
\<close>

definition shutdown_begin :: "pool_system \<Rightarrow> pool_system" where
  "shutdown_begin sys =
     sys\<lparr>the_pool := (the_pool sys)\<lparr>isShuttingDown := True, cleanupInterval := False\<rparr>,
         shutdowns := shutdowns sys @ [map fst (instances (the_pool sys))]\<rparr>"

text \<open>One of the closes that shutdown number \<open>n\<close> awaits has ended.\<close>

definition shutdown_closed :: "pool_system \<Rightarrow> nat \<Rightarrow> string \<Rightarrow> close_outcome \<Rightarrow> pool_system" where
  "shutdown_closed sys n instanceId outcome =
     (if n < length (shutdowns sys) \<and> instanceId \<in> set (shutdowns sys ! n)
      then (closeBrowserInstance_end sys instanceId outcome)
             \<lparr>shutdowns := (shutdowns sys)[n := removeAll instanceId (shutdowns sys ! n)]\<rparr>
      else sys)"

text \<open>
  \<open>await Promise.allSettled(shutdownPromises)\<close>: shutdown number \<open>n\<close> returns when none
  of its closes is pending any more.
\<close>

definition shutdown_returns :: "pool_system \<Rightarrow> nat \<Rightarrow> bool" where
  "shutdown_returns sys n \<longleftrightarrow> n < length (shutdowns sys) \<and> shutdowns sys ! n = []"

datatype pool_event =
    Get "string option" string int
  | Launched string "thrown option" int
  | Tick nat int
  | Release string int
  | SweepStart int
  | SweepClosed nat close_outcome
  | ShutdownStart
  | ShutdownClosed nat string close_outcome

text \<open>
  A piece that cannot happen in a state (the end of a launch that is not pending, a timer
  that is not armed, ...) leaves the state as it is.
\<close>

fun pool_step :: "browser_config \<Rightarrow> pool_system \<Rightarrow> pool_event \<Rightarrow> pool_system" where
  "pool_step cfg sys (Get proxy instanceId now) =
     (case getBrowserContext_begin cfg (the_pool sys) proxy instanceId now of
        (Throws e, st) \<Rightarrow> sys\<lparr>the_pool := st\<rparr>
      | (Returns c i, st) \<Rightarrow> sys\<lparr>the_pool := st\<rparr>
      | (AwaitLaunch i p, st) \<Rightarrow> sys\<lparr>the_pool := st, launching := launching sys @ [(i, p)]\<rparr>
      | (AwaitRelease p, st) \<Rightarrow> sys\<lparr>the_pool := st, waiters := waiters sys @ [p]\<rparr>)"
| "pool_step cfg sys (Launched instanceId launch now) =
     (case map_of (launching sys) instanceId of
        None \<Rightarrow> sys
      | Some proxy \<Rightarrow>
          sys\<lparr>the_pool := snd (createBrowserInstance (the_pool sys) instanceId proxy launch now),
              launching := AList.delete instanceId (launching sys)\<rparr>)"
| "pool_step cfg sys (Tick w now) =
     (if w < length (waiters sys)
      then (case waitForAvailableInstance (the_pool sys) (waiters sys ! w) [(the_pool sys, now)] of
              (Inr r, st) \<Rightarrow> sys\<lparr>the_pool := st, waiters := take w (waiters sys) @ drop (Suc w) (waiters sys)\<rparr>
            | (Inl e, st) \<Rightarrow> sys)
      else sys)"
| "pool_step cfg sys (Release instanceId now) =
     sys\<lparr>the_pool := releaseBrowserContext (the_pool sys) instanceId now\<rparr>"
| "pool_step cfg sys (SweepStart now) =
     (if cleanupInterval (the_pool sys) then cleanupIdleInstances_begin cfg sys now else sys)"
| "pool_step cfg sys (SweepClosed n outcome) = cleanupIdleInstances_resume sys n outcome"
| "pool_step cfg sys ShutdownStart = shutdown_begin sys"
| "pool_step cfg sys (ShutdownClosed n instanceId outcome) = shutdown_closed sys n instanceId outcome"

definition pool_run :: "browser_config \<Rightarrow> pool_system \<Rightarrow> pool_event list \<Rightarrow> pool_system" where
  "pool_run cfg sys evs = foldl (pool_step cfg) sys evs"

text \<open>A pool of capacity one, and a pool holding one idle instance launched through a proxy.\<close>

definition cfg1 :: browser_config where
  "cfg1 = \<lparr>poolSize = 1, idleTimeout = 300000, launchTimeout = 30000\<rparr>"

definition cfg3 :: browser_config where
  "cfg3 = \<lparr>poolSize = 3, idleTimeout = 300000, launchTimeout = 30000\<rparr>"

definition idle_a :: browser_instance where
  "idle_a = \<lparr>browser = Some ''http://proxy-a:8080'', ctx = ContextOf ''k3f9a'',
             createdAt = 1000, lastUsed = 5000, isActive = False, inst_id = ''k3f9a''\<rparr>"

definition busy_b :: browser_instance where
  "busy_b = \<lparr>browser = None, ctx = ContextOf ''p0q8z'',
             createdAt = 2000, lastUsed = 2000, isActive = True, inst_id = ''p0q8z''\<rparr>"

definition pool_ab :: pool where
  "pool_ab = \<lparr>instances = [(''k3f9a'', idle_a), (''p0q8z'', busy_b)],
              cleanupInterval = True, isShuttingDown = False\<rparr>"

definition sys_ab :: pool_system where
  "sys_ab = new_system\<lparr>the_pool := pool_ab\<rparr>"

text \<open>A task that fails without touching the pool.\<close>

definition failing_task :: "browser_context \<Rightarrow> pool \<Rightarrow> (thrown + string) \<times> pool" where
  "failing_task c st = (Inl (ErrorObj ''Navigation failed''), st)"


section \<open>Task queue: \<open>InstagramQueue\<close> (src/src/queue/instagram-queue.ts)\<close>

text \<open>\<open>config.instagram\<close>, as far as the queue reads it.\<close>

record queue_config =
  concurrency :: int
  rateLimitPerMinute :: int

text \<open>
  The queue itself is an object of the \<open>p-queue\<close> package, which is not part of the
  repository. The model keeps what the source hands to it, reads from it or is told by it:
  the three settings of the constructor, the jobs added and not yet started
  (\<open>queue.size\<close> is their number), and the jobs started and not yet settled
  (\<open>queue.pending\<close> is their number). Jobs are named by numbers. When the package
  starts a waiting job, and which one, is its own decision within those settings; the
  model lets any waiting job start whenever fewer than \<open>concurrency\<close> jobs are running,
  and leaves the interval settings to the package.
\<close>

record pqueue =
  pq_concurrency :: int
  pq_interval :: int
  pq_intervalCap :: int
  pq_waiting :: "(nat \<times> int option) list"
  pq_running :: "nat list"

record queue_stats =
  totalProcessed :: int
  totalErrors :: int
  currentActive :: int
  peakActive :: int

text \<open>
  Beside the two fields of the class, the state keeps what each caller of \<open>add\<close> has
  received so far (\<open>settled\<close>) and the number of \<open>shutdown\<close> calls that are waiting in
  \<open>await this.queue.onIdle()\<close>.
\<close>

record 'r InstagramQueue =
  queue :: pqueue
  stats :: queue_stats
  settled :: "(nat \<times> (thrown + 'r)) list"
  draining :: nat

definition new_queue :: "queue_config \<Rightarrow> 'r InstagramQueue" where
  "new_queue cfg =
     \<lparr>queue = \<lparr>pq_concurrency = concurrency cfg, pq_interval = 60000,
                pq_intervalCap = rateLimitPerMinute cfg, pq_waiting = [], pq_running = []\<rparr>,
      stats = \<lparr>totalProcessed = 0, totalErrors = 0, currentActive = 0, peakActive = 0\<rparr>,
      settled = [], draining = 0\<rparr>"

text \<open>The three handlers registered in the constructor.\<close>

definition on_active :: "queue_stats \<Rightarrow> queue_stats" where
  "on_active s = s\<lparr>currentActive := currentActive s + 1,
                    peakActive := max (peakActive s) (currentActive s + 1)\<rparr>"

definition on_completed :: "queue_stats \<Rightarrow> queue_stats" where
  "on_completed s = s\<lparr>currentActive := currentActive s - 1,
                       totalProcessed := totalProcessed s + 1\<rparr>"

definition on_error :: "queue_stats \<Rightarrow> queue_stats" where
  "on_error s = s\<lparr>currentActive := currentActive s - 1,
                   totalErrors := totalErrors s + 1\<rparr>"

text \<open>
  \<open>add\<close>: the task, wrapped, is handed to \<open>queue.add\<close> with the options. There is no
  check before that.
\<close>

definition add :: "'r InstagramQueue \<Rightarrow> nat \<Rightarrow> int option \<Rightarrow> 'r InstagramQueue" where
  "add q job priority =
     q\<lparr>queue := (queue q)\<lparr>pq_waiting := pq_waiting (queue q) @ [(job, priority)]\<rparr>\<rparr>"

text \<open>
  \<open>shutdown\<close> up to its await: \<open>queue.clear()\<close> empties the waiting jobs. Nothing is
  sent to the callers of the jobs that are dropped, and no flag is set.
\<close>

definition shutdown_call :: "'r InstagramQueue \<Rightarrow> 'r InstagramQueue" where
  "shutdown_call q = q\<lparr>queue := (queue q)\<lparr>pq_waiting := []\<rparr>, draining := Suc (draining q)\<rparr>"

text \<open>\<open>onIdle\<close> resolves when no job is waiting and none is running.\<close>

definition onIdle :: "'r InstagramQueue \<Rightarrow> bool" where
  "onIdle q \<longleftrightarrow> pq_waiting (queue q) = [] \<and> pq_running (queue q) = []"

definition isIdle :: "'r InstagramQueue \<Rightarrow> bool" where
  "isIdle q \<longleftrightarrow> length (pq_waiting (queue q)) = 0 \<and> currentActive (stats q) = 0"

text \<open>
  The pieces of a run: a call of \<open>add\<close>; the package starts a waiting job (event
  \<open>active\<close>); the task of a running job settles, the wrapper returns its result or
  rethrows its error, the package emits \<open>completed\<close> or \<open>error\<close> and the caller of
  \<open>add\<close> receives the same outcome; a call of \<open>shutdown\<close>; the return of such a call.
  A piece that cannot happen in a state gives \<open>None\<close>.
\<close>

datatype 'r queue_event =
    Add nat "int option"
  | Active nat
  | Settle nat "thrown + 'r"
  | ShutdownCall
  | ShutdownReturn

fun queue_step :: "'r InstagramQueue \<Rightarrow> 'r queue_event \<Rightarrow> 'r InstagramQueue option" where
  "queue_step q (Add job priority) = Some (add q job priority)"
| "queue_step q (Active job) =
     (if job \<in> set (map fst (pq_waiting (queue q))) \<and>
         int (length (pq_running (queue q))) < pq_concurrency (queue q)
      then Some (q\<lparr>queue := (queue q)\<lparr>pq_waiting := AList.delete job (pq_waiting (queue q)),
                                       pq_running := pq_running (queue q) @ [job]\<rparr>,
                   stats := on_active (stats q)\<rparr>)
      else None)"
| "queue_step q (Settle job outcome) =
     (if job \<in> set (pq_running (queue q))
      then Some (q\<lparr>queue := (queue q)\<lparr>pq_running := removeAll job (pq_running (queue q))\<rparr>,
                   stats := (case outcome of
                               Inr r \<Rightarrow> on_completed (stats q)
                             | Inl e \<Rightarrow> on_error (stats q)),
                   settled := settled q @ [(job, outcome)]\<rparr>)
      else None)"
| "queue_step q ShutdownCall = Some (shutdown_call q)"
| "queue_step q ShutdownReturn =
     (if 0 < draining q \<and> onIdle q then Some (q\<lparr>draining := draining q - 1\<rparr>) else None)"

fun queue_run :: "'r InstagramQueue \<Rightarrow> 'r queue_event list \<Rightarrow> 'r InstagramQueue option" where
  "queue_run q [] = Some q"
| "queue_run q (e # es) = (case queue_step q e of None \<Rightarrow> None | Some q' \<Rightarrow> queue_run q' es)"

text \<open>A queue that runs one job at a time.\<close>

definition qcfg :: queue_config where
  "qcfg = \<lparr>concurrency = 1, rateLimitPerMinute = 30\<rparr>"

text \<open>
  A job that the queue knows nothing of any more: neither waiting nor running, and nothing
  has been delivered to its caller. A job that has been started: running, or settled.
\<close>

definition forgotten :: "nat \<Rightarrow> 'r InstagramQueue \<Rightarrow> bool" where
  "forgotten j q \<longleftrightarrow>
     j \<notin> fst ` set (pq_waiting (queue q)) \<and> j \<notin> set (pq_running (queue q)) \<and>
     j \<notin> fst ` set (settled q)"

definition started :: "nat \<Rightarrow> 'r InstagramQueue \<Rightarrow> bool" where
  "started a q \<longleftrightarrow> a \<in> set (pq_running (queue q)) \<or> a \<in> fst ` set (settled q)"

text \<open>
  Two states of that queue: job 1 running and job 2 waiting; and, after a shutdown call
  and the end of job 1, nothing waiting or running while the shutdown call has not yet
  returned.
\<close>

definition one_running :: "string InstagramQueue" where
  "one_running =
     \<lparr>queue = \<lparr>pq_concurrency = 1, pq_interval = 60000, pq_intervalCap = 30,
                pq_waiting = [(2, None)], pq_running = [1]\<rparr>,
      stats = \<lparr>totalProcessed = 0, totalErrors = 0, currentActive = 1, peakActive = 1\<rparr>,
      settled = [], draining = 0\<rparr>"

definition drained :: "string InstagramQueue" where
  "drained =
     \<lparr>queue = \<lparr>pq_concurrency = 1, pq_interval = 60000, pq_intervalCap = 30,
                pq_waiting = [], pq_running = []\<rparr>,
      stats = \<lparr>totalProcessed = 1, totalErrors = 0, currentActive = 0, peakActive = 1\<rparr>,
      settled = [(1, Inr ''profile'')], draining = 1\<rparr>"


section \<open>Auxiliary facts\<close>

subsection \<open>The retry loop\<close>

lemma timeline_append: "timeline (xs @ ys) = timeline xs @ timeline ys"
  by (induction xs rule: timeline.induct) auto

lemma pattern_step: "a < m \<Longrightarrow> pattern a m = Invoke a # Sleep (backoff a) # pattern (Suc a) m"
  by (simp add: pattern_def upt_conv_Cons)

lemma pattern_same: "pattern m m = [Invoke m]"
  by (simp add: pattern_def)

lemma retry_loop_shape:
  "attempt \<le> n \<Longrightarrow>
   \<exists>m. attempt \<le> m \<and> m \<le> n \<and>
       timeline (snd (retry_loop op n c attempt lastErr tr)) = timeline tr @ pattern attempt m \<and>
       (\<forall>j. attempt \<le> j \<and> j < m \<longrightarrow> isl (op j)) \<and>
       (case fst (retry_loop op n c attempt lastErr tr) of
          Inr v \<Rightarrow> op m = Inr v
        | Inl e \<Rightarrow> m = n \<and> isl (op n) \<and> e = Some (as_Error (projl (op n))))"
proof (induction op n c attempt lastErr tr rule: retry_loop.induct)
  case (1 op n c attempt lastErr tr)
  show ?case
  proof (cases "op attempt")
    case (Inr v)
    with "1.prems" show ?thesis
      by (intro exI[of _ attempt]) (auto simp add: retry_loop.simps[of op n c attempt] timeline_append pattern_same)
  next
    case (Inl e)
    show ?thesis
    proof (cases "attempt < n")
      case True
      from "1.IH"(1)[OF "1.prems" Inl refl refl True] True
      obtain m where m: "Suc attempt \<le> m" "m \<le> n"
        "timeline (snd (retry_loop op n c (attempt + 1) (Some (as_Error e))
            ((tr @ [LogDebug c attempt n, Invoke attempt, LogWarn c attempt n (message (as_Error e))]) @ [Sleep (backoff attempt)])))
          = timeline ((tr @ [LogDebug c attempt n, Invoke attempt, LogWarn c attempt n (message (as_Error e))]) @ [Sleep (backoff attempt)]) @ pattern (attempt + 1) m"
        "\<forall>j. attempt + 1 \<le> j \<and> j < m \<longrightarrow> isl (op j)"
        "(case fst (retry_loop op n c (attempt + 1) (Some (as_Error e))
            ((tr @ [LogDebug c attempt n, Invoke attempt, LogWarn c attempt n (message (as_Error e))]) @ [Sleep (backoff attempt)])) of
          Inr v \<Rightarrow> op m = Inr v
        | Inl e \<Rightarrow> m = n \<and> isl (op n) \<and> e = Some (as_Error (projl (op n))))"
        by auto
      have fail: "\<forall>j. attempt \<le> j \<and> j < m \<longrightarrow> isl (op j)"
      proof (intro allI impI)
        fix j assume "attempt \<le> j \<and> j < m"
        then show "isl (op j)" using m(4) Inl by (cases "j = attempt") auto
      qed
      show ?thesis
        apply (rule exI[of _ m])
        using m True Inl fail
        by (simp add: retry_loop.simps[of op n c attempt] timeline_append pattern_step Let_def)
    next
      case False
      with "1.prems" have eq: "attempt = n" by simp
      show ?thesis
        apply (rule exI[of _ n])
        using eq Inl
        by (auto simp add: retry_loop.simps[of op n c n] retry_loop.simps[of op n c "Suc n"] timeline_append pattern_same Let_def)
    qed
  qed
qed


lemma invocations_timeline: "invocations (timeline es) = invocations es"
  by (induction es rule: timeline.induct) auto
lemma waits_timeline: "waits (timeline es) = waits es"
  by (induction es rule: timeline.induct) auto
lemma invocations_append: "invocations (xs @ ys) = invocations xs @ invocations ys"
  by (induction xs rule: invocations.induct) auto
lemma waits_append: "waits (xs @ ys) = waits xs @ waits ys"
  by (induction xs rule: waits.induct) auto
lemma invocations_pattern: "a \<le> m \<Longrightarrow> invocations (pattern a m) = [a..<Suc m]"
  by (induction "m - a" arbitrary: a) (auto simp: pattern_same pattern_step upt_conv_Cons)
lemma waits_pattern: "a \<le> m \<Longrightarrow> waits (pattern a m) = map backoff [a..<m]"
  by (induction "m - a" arbitrary: a) (auto simp: pattern_same pattern_step upt_conv_Cons)


lemma retry_loop_last_warn:
  "attempt \<le> n \<Longrightarrow> \<forall>k. attempt \<le> k \<and> k \<le> n \<longrightarrow> isl (op k) \<Longrightarrow>
   last (snd (retry_loop op n c attempt lastErr tr)) = LogWarn c n n (message (as_Error (projl (op n))))"
proof (induction op n c attempt lastErr tr rule: retry_loop.induct)
  case (1 op n c attempt lastErr tr)
  from "1.prems" obtain e where e: "op attempt = Inl e"
    by (cases "op attempt") auto
  show ?case
  proof (cases "attempt < n")
    case True
    have "last (snd (retry_loop op n c (attempt + 1) (Some (as_Error e))
            ((tr @ [LogDebug c attempt n, Invoke attempt, LogWarn c attempt n (message (as_Error e))]) @ [Sleep (backoff attempt)])))
          = LogWarn c n n (message (as_Error (projl (op n))))"
      using "1.IH"(1)[OF "1.prems"(1) e refl refl True] True "1.prems"(2) by simp
    with True e show ?thesis
      by (simp add: retry_loop.simps[of op n c attempt] Let_def)
  next
    case False
    with "1.prems" have eq: "attempt = n" by simp
    with e show ?thesis
      by (simp add: retry_loop.simps[of op n c n] retry_loop.simps[of op n c "Suc n"] Let_def)
  qed
qed

subsection \<open>The pool\<close>

lemma store_flags:
  "isShuttingDown (store st i) = isShuttingDown st"
  "cleanupInterval (store st i) = cleanupInterval st"
  by (simp_all add: store_def)

lemma map_of_store: "map_of (instances (store st i)) (inst_id i) = Some i"
  by (simp add: store_def update_conv')

lemma createBrowserInstance_flag:
  "isShuttingDown (snd (createBrowserInstance st i p launch now)) = isShuttingDown st"
  by (cases launch) (simp_all add: createBrowserInstance_def Let_def)

lemma releaseBrowserContext_flag:
  "isShuttingDown (releaseBrowserContext st k now) = isShuttingDown st"
  by (cases "map_of (instances st) k") (simp_all add: releaseBrowserContext_def)

lemma getBrowserContext_begin_shutting_down:
  "isShuttingDown st \<Longrightarrow>
   getBrowserContext_begin cfg st proxy i now = (Throws (ErrorObj ''Browser pool is shutting down''), st)"
  by (simp add: getBrowserContext_begin_def)

lemma waitForAvailableInstance_flag:
  "isShuttingDown st \<Longrightarrow> \<forall>(s, t) \<in> set ticks. isShuttingDown s \<Longrightarrow>
   isShuttingDown (snd (waitForAvailableInstance st p ticks))"
  by (induction st p ticks rule: waitForAvailableInstance.induct)
     (auto simp: store_flags split: option.splits)

lemma closeBrowserInstance_end_pool:
  "the_pool (closeBrowserInstance_end sys k outcome) =
     (the_pool sys)\<lparr>instances := AList.delete k (instances (the_pool sys))\<rparr>"
  by (cases outcome) (simp_all add: closeBrowserInstance_end_def delete_instance_def)

lemma closeBrowserInstance_end_rest:
  "shutdowns (closeBrowserInstance_end sys k outcome) = shutdowns sys"
  "sweeps (closeBrowserInstance_end sys k outcome) = sweeps sys"
  by (cases outcome; simp add: closeBrowserInstance_end_def delete_instance_def)+

lemma cleanupIdleInstances_resume_flag:
  "isShuttingDown (the_pool (cleanupIdleInstances_resume sys n outcome)) = isShuttingDown (the_pool sys)"
  by (simp add: cleanupIdleInstances_resume_def Let_def closeBrowserInstance_end_pool split: list.splits)

lemma shutdown_closed_flag:
  "isShuttingDown (the_pool (shutdown_closed sys n k outcome)) = isShuttingDown (the_pool sys)"
  by (simp add: shutdown_closed_def closeBrowserInstance_end_pool)

lemma pool_step_keeps_shutting_down:
  assumes "isShuttingDown (the_pool sys)"
  shows "isShuttingDown (the_pool (pool_step cfg sys ev))"
proof (cases ev)
  case (Get proxy i now)
  with assms show ?thesis
    by (simp add: getBrowserContext_begin_shutting_down)
next
  case (Launched i launch now)
  with assms show ?thesis
    by (cases "map_of (launching sys) i") (simp_all add: createBrowserInstance_flag)
next
  case (Tick w now)
  show ?thesis
  proof (cases "w < length (waiters sys)")
    case True
    have "isShuttingDown (snd (waitForAvailableInstance (the_pool sys) (waiters sys ! w) [(the_pool sys, now)]))"
      using assms by (intro waitForAvailableInstance_flag) auto
    with True Tick assms show ?thesis
      by (cases "waitForAvailableInstance (the_pool sys) (waiters sys ! w) [(the_pool sys, now)]")
         (auto split: sum.splits)
  next
    case False
    with Tick assms show ?thesis by simp
  qed
next
  case (Release k now)
  with assms show ?thesis by (simp add: releaseBrowserContext_flag)
next
  case (SweepStart now)
  with assms show ?thesis by (simp add: cleanupIdleInstances_begin_def Let_def)
next
  case (SweepClosed n outcome)
  with assms show ?thesis by (simp add: cleanupIdleInstances_resume_flag)
next
  case ShutdownStart
  then show ?thesis by (simp add: shutdown_begin_def)
next
  case (ShutdownClosed n k outcome)
  with assms show ?thesis by (simp add: shutdown_closed_flag)
qed

lemma pool_run_keeps_shutting_down:
  "isShuttingDown (the_pool sys) \<Longrightarrow> isShuttingDown (the_pool (pool_run cfg sys evs))"
  unfolding pool_run_def
  by (induction evs arbitrary: sys) (simp_all add: pool_step_keeps_shutting_down)

text \<open>
  A close that a shutdown awaits stays pending until the piece that ends it, and that
  piece deletes the id from the map.
\<close>

lemma pool_step_shutdowns:
  assumes "n < length (shutdowns sys)"
  shows "n < length (shutdowns (pool_step cfg sys ev)) \<and>
         shutdowns (pool_step cfg sys ev) ! n =
           (case ev of
              ShutdownClosed n' k outcome \<Rightarrow>
                if n' = n \<and> k \<in> set (shutdowns sys ! n)
                then removeAll k (shutdowns sys ! n) else shutdowns sys ! n
            | _ \<Rightarrow> shutdowns sys ! n)"
proof (cases ev)
  case (Get proxy i now)
  with assms show ?thesis
    by (cases "getBrowserContext_begin cfg (the_pool sys) proxy i now")
       (auto split: acquire.splits)
next
  case (Launched i launch now)
  with assms show ?thesis by (cases "map_of (launching sys) i") simp_all
next
  case (Tick w now)
  with assms show ?thesis
    by (cases "waitForAvailableInstance (the_pool sys) (waiters sys ! w) [(the_pool sys, now)]")
       (auto split: sum.splits)
next
  case (Release k now)
  with assms show ?thesis by simp
next
  case (SweepStart now)
  with assms show ?thesis by (simp add: cleanupIdleInstances_begin_def Let_def)
next
  case (SweepClosed m outcome)
  with assms show ?thesis
    by (simp add: cleanupIdleInstances_resume_def Let_def closeBrowserInstance_end_rest
          split: list.splits)
next
  case ShutdownStart
  with assms show ?thesis by (simp add: shutdown_begin_def nth_append)
next
  case (ShutdownClosed n' k outcome)
  with assms show ?thesis
    by (cases "n' = n") (auto simp: shutdown_closed_def closeBrowserInstance_end_rest)
qed

lemma shutdown_closed_deletes:
  assumes "n < length (shutdowns sys)" and "k \<in> set (shutdowns sys ! n)"
  shows "k \<notin> fst ` set (instances (the_pool (pool_step cfg sys (ShutdownClosed n k outcome))))"
  using assms delete_notin_dom[of k "instances (the_pool sys)"]
  by (simp add: shutdown_closed_def closeBrowserInstance_end_pool)

lemma pool_run_snoc: "pool_run cfg sys (evs @ [ev]) = pool_step cfg (pool_run cfg sys evs) ev"
  by (simp add: pool_run_def)

lemma shutdown_pending_or_closed:
  assumes "n < length (shutdowns sys)" and "k \<in> set (shutdowns sys ! n)"
  shows "n < length (shutdowns (pool_run cfg sys evs)) \<and>
         (k \<in> set (shutdowns (pool_run cfg sys evs) ! n) \<or>
          (\<exists>pre outcome post.
             evs = pre @ ShutdownClosed n k outcome # post \<and>
             k \<notin> fst ` set (instances (the_pool (pool_run cfg sys (pre @ [ShutdownClosed n k outcome]))))))"
proof (induction evs rule: rev_induct)
  case Nil
  with assms show ?case by (simp add: pool_run_def)
next
  case (snoc ev evs)
  let ?s = "pool_run cfg sys evs"
  from snoc have len: "n < length (shutdowns ?s)" by simp
  note st = pool_step_shutdowns[OF len, of cfg ev]
  show ?case
  proof (cases "k \<in> set (shutdowns ?s ! n)")
    case True
    show ?thesis
    proof (cases "\<exists>outcome. ev = ShutdownClosed n k outcome")
      case True
      then obtain outcome where ev: "ev = ShutdownClosed n k outcome" by blast
      have "k \<notin> fst ` set (instances (the_pool (pool_run cfg sys (evs @ [ShutdownClosed n k outcome]))))"
        using shutdown_closed_deletes[OF len \<open>k \<in> set (shutdowns ?s ! n)\<close>, of cfg outcome]
        by (simp add: pool_run_snoc)
      then have "\<exists>pre outcome' post.
             evs @ [ev] = pre @ ShutdownClosed n k outcome' # post \<and>
             k \<notin> fst ` set (instances (the_pool (pool_run cfg sys (pre @ [ShutdownClosed n k outcome']))))"
        using ev by (intro exI[of _ evs] exI[of _ outcome] exI[of _ "[]"]) simp
      with st show ?thesis by (simp add: pool_run_snoc)
    next
      case False
      with st True have "k \<in> set (shutdowns (pool_step cfg ?s ev) ! n)"
        by (auto split: pool_event.splits if_splits)
      with st show ?thesis by (simp add: pool_run_snoc)
    qed
  next
    case False
    with snoc obtain pre outcome post where
      "evs = pre @ ShutdownClosed n k outcome # post"
      "k \<notin> fst ` set (instances (the_pool (pool_run cfg sys (pre @ [ShutdownClosed n k outcome]))))"
      by blast
    then have "\<exists>pre outcome' post'.
             evs @ [ev] = pre @ ShutdownClosed n k outcome' # post' \<and>
             k \<notin> fst ` set (instances (the_pool (pool_run cfg sys (pre @ [ShutdownClosed n k outcome']))))"
      by (intro exI[of _ pre] exI[of _ outcome] exI[of _ "post @ [ev]"]) simp
    with st show ?thesis by (simp add: pool_run_snoc)
  qed
qed

text \<open>
  An instance whose launch is in flight when \<open>shutdown\<close> is called is not among the
  closes that \<open>shutdown\<close> awaits, and the end of the launch does not read the flag: here
  \<open>shutdown\<close> can return at once, and the instance enters the map afterwards.
\<close>

lemma launch_in_flight_survives_shutdown:
  "shutdown_returns (pool_run cfg3 new_system [Get None ''k3f9a'' 0, ShutdownStart]) 0 \<and>
   isShuttingDown (the_pool (pool_run cfg3 new_system
       [Get None ''k3f9a'' 0, ShutdownStart, Launched ''k3f9a'' None 900])) \<and>
   map (\<lambda>(k, i). (k, isActive i)) (instances (the_pool (pool_run cfg3 new_system
       [Get None ''k3f9a'' 0, ShutdownStart, Launched ''k3f9a'' None 900])))
     = [(''k3f9a'', True)]"
  by (simp add: pool_run_def new_system_def new_pool_def cfg3_def getBrowserContext_begin_def
        findAvailableInstance_def createBrowserInstance_def shutdown_begin_def
        shutdown_returns_def truthy_def Let_def)

text \<open>
  When \<open>getBrowserContext\<close> is called on a pool that is not shutting down, the first
  instance in map order that is not active is the one reused, whatever the proxy.
\<close>

lemma reuse_takes_first_idle:
  assumes "\<not> isShuttingDown st"
    and "instances st = pre @ (k, inst) # post"
    and "list_all (\<lambda>(k', i). isActive i) pre" and "\<not> isActive inst"
  shows "getBrowserContext cfg st proxy i launch now ticks =
           (Inr (ctx inst, inst_id inst), store st (inst\<lparr>lastUsed := now, isActive := True\<rparr>))"
proof -
  have "find (\<lambda>x. \<not> isActive x) (map snd pre @ inst # map snd post) = Some inst"
    using assms(3,4) by (induction pre) auto
  with assms(2) have "findAvailableInstance st proxy = Some inst"
    by (simp add: findAvailableInstance_def)
  with assms(1) show ?thesis
    by (simp add: getBrowserContext_def getBrowserContext_begin_def)
qed

lemma find_first_filter:
  "find P xs = (case filter P xs of [] \<Rightarrow> None | x # _ \<Rightarrow> Some x)"
  by (induction xs) auto


lemma waitForAvailableInstance_busy:
  "waitForAvailableInstance st p ticks = (Inr (c, k), st1) \<Longrightarrow>
   \<exists>inst. map_of (instances st1) k = Some inst \<and> isActive inst \<and> ctx inst = c"
proof (induction st p ticks rule: waitForAvailableInstance.induct)
  case (1 st proxy)
  then show ?case by simp
next
  case (2 st proxy st' now ticks)
  show ?case
  proof (cases "findAvailableInstance st' proxy")
    case None
    with 2 show ?thesis by simp
  next
    case (Some a)
    with "2.prems" have "c = ctx a" "k = inst_id a" "st1 = store st' (a\<lparr>lastUsed := now, isActive := True\<rparr>)"
      by simp_all
    then show ?thesis
      using map_of_store[of st' "a\<lparr>lastUsed := now, isActive := True\<rparr>"] by simp
  qed
qed

lemma getBrowserContext_busy:
  assumes "getBrowserContext cfg st proxy i launch now ticks = (Inr (c, k), st1)"
  shows "\<exists>inst. map_of (instances st1) k = Some inst \<and> isActive inst \<and> ctx inst = c"
proof (cases "getBrowserContext_begin cfg st proxy i now")
  case (Pair a st')
  show ?thesis
  proof (cases a)
    case (Throws e)
    with Pair assms show ?thesis by (simp add: getBrowserContext_def)
  next
    case (Returns c' k')
    with Pair assms have eq: "c' = c" "k' = k" "st' = st1" by (simp_all add: getBrowserContext_def)
    from Pair Returns obtain inst where
      "findAvailableInstance st proxy = Some inst" "c' = ctx inst" "k' = inst_id inst"
      "st' = store st (inst\<lparr>lastUsed := now, isActive := True\<rparr>)"
      by (auto simp: getBrowserContext_begin_def split: if_splits option.splits)
    with eq show ?thesis
      using map_of_store[of st "inst\<lparr>lastUsed := now, isActive := True\<rparr>"] by simp
  next
    case (AwaitLaunch i' p')
    with Pair assms show ?thesis
      by (cases launch) (auto simp: getBrowserContext_def createBrowserInstance_def Let_def update_conv')
  next
    case (AwaitRelease p')
    with Pair assms have "waitForAvailableInstance st' p' ticks = (Inr (c, k), st1)"
      by (simp add: getBrowserContext_def)
    then show ?thesis by (rule waitForAvailableInstance_busy)
  qed
qed

text \<open>
  A call of \<open>getBrowserContext\<close> that runs without another call in between keeps the
  map within \<open>poolSize\<close>.
\<close>

lemma length_update_present:
  "k \<in> fst ` set al \<Longrightarrow> length (AList.update k v al) = length al"
  by (induction al) auto

lemma length_update_le: "length (AList.update k v al) \<le> Suc (length al)"
  by (induction al) auto

lemma findAvailableInstance_key:
  assumes "wf_pool st" and "findAvailableInstance st proxy = Some inst"
  shows "inst_id inst \<in> fst ` set (instances st)"
proof -
  from assms(2) have "inst \<in> snd ` set (instances st)"
    by (auto simp: findAvailableInstance_def find_Some_iff)
  then obtain k where k: "(k, inst) \<in> set (instances st)" by auto
  with assms(1) have "inst_id inst = k"
    by (auto simp: wf_pool_def list_all_iff)
  with k show ?thesis by (auto simp: rev_image_eqI)
qed

lemma store_found_length:
  assumes "wf_pool st" and "findAvailableInstance st proxy = Some inst"
  shows "length (instances (store st (inst\<lparr>lastUsed := now, isActive := True\<rparr>))) = length (instances st)"
  using findAvailableInstance_key[OF assms] by (simp add: store_def length_update_present)

lemma waitForAvailableInstance_bound:
  "int (length (instances st)) \<le> P \<Longrightarrow>
   \<forall>(s, t) \<in> set ticks. wf_pool s \<and> int (length (instances s)) \<le> P \<Longrightarrow>
   int (length (instances (snd (waitForAvailableInstance st p ticks)))) \<le> P"
proof (induction st p ticks rule: waitForAvailableInstance.induct)
  case (1 st proxy)
  then show ?case by simp
next
  case (2 st proxy st' now ticks)
  show ?case
  proof (cases "findAvailableInstance st' proxy")
    case None
    with 2 show ?thesis by simp
  next
    case (Some a)
    with "2.prems" store_found_length[of st' proxy a now] show ?thesis by simp
  qed
qed

lemma createBrowserInstance_length:
  "int (length (instances (snd (createBrowserInstance st i p launch now)))) \<le> int (length (instances st)) + 1"
proof (cases launch)
  case None
  have "int (length (AList.update i v (instances st))) \<le> int (length (instances st)) + 1" for v
    using length_update_le[of i v "instances st"] by simp
  with None show ?thesis by (simp add: createBrowserInstance_def Let_def)
next
  case (Some e)
  then show ?thesis by (simp add: createBrowserInstance_def)
qed

lemma sequential_acquire_keeps_bound:
  assumes "wf_pool st" and "int (length (instances st)) \<le> poolSize cfg"
    and "\<forall>(s, t) \<in> set ticks. wf_pool s \<and> int (length (instances s)) \<le> poolSize cfg"
  shows "int (length (instances (snd (getBrowserContext cfg st proxy i launch now ticks)))) \<le> poolSize cfg"
proof (cases "isShuttingDown st")
  case True
  with assms(2) show ?thesis
    by (simp add: getBrowserContext_def getBrowserContext_begin_def)
next
  case False
  show ?thesis
  proof (cases "findAvailableInstance st proxy")
    case (Some a)
    with False assms(1,2) store_found_length[of st proxy a now] show ?thesis
      by (simp add: getBrowserContext_def getBrowserContext_begin_def)
  next
    case None
    show ?thesis
    proof (cases "int (length (instances st)) < poolSize cfg")
      case True
      have "getBrowserContext cfg st proxy i launch now ticks =
          (case createBrowserInstance st i proxy launch now of
             (Inl e, st'') \<Rightarrow> (Inl e, st'')
           | (Inr instance, st'') \<Rightarrow> (Inr (ctx instance, inst_id instance), st''))"
        using None False True by (simp add: getBrowserContext_def getBrowserContext_begin_def)
      then have "snd (getBrowserContext cfg st proxy i launch now ticks) =
          snd (createBrowserInstance st i proxy launch now)"
        by (cases "createBrowserInstance st i proxy launch now") (auto split: sum.splits)
      with True createBrowserInstance_length[of st i proxy launch now] show ?thesis
        by simp
    next
      case full: False
      with None False waitForAvailableInstance_bound[OF assms(2,3)] show ?thesis
        by (simp add: getBrowserContext_def getBrowserContext_begin_def)
    qed
  qed
qed

subsection \<open>The queue\<close>

lemma forgotten_step:
  assumes "forgotten j q" and "queue_step q e = Some q'" and "\<forall>p. e \<noteq> Add j p"
  shows "forgotten j q'"
proof (cases e)
  case (Add j' p)
  with assms show ?thesis by (auto simp: forgotten_def add_def)
next
  case (Active j')
  with assms(2) have q': "j' \<in> fst ` set (pq_waiting (queue q))"
      "pq_waiting (queue q') = AList.delete j' (pq_waiting (queue q))"
      "pq_running (queue q') = pq_running (queue q) @ [j']" "settled q' = settled q"
    by (auto split: if_splits)
  from q'(1) assms(1) have "j \<noteq> j'" by (auto simp: forgotten_def)
  moreover have "j \<notin> fst ` set (AList.delete j' (pq_waiting (queue q)))"
    using dom_delete_subset[of j' "pq_waiting (queue q)"] assms(1) by (auto simp: forgotten_def)
  ultimately show ?thesis
    using assms(1) q' by (simp add: forgotten_def)
next
  case (Settle j' outcome)
  with assms show ?thesis by (auto simp: forgotten_def split: if_splits)
next
  case ShutdownCall
  with assms show ?thesis by (auto simp: forgotten_def shutdown_call_def)
next
  case ShutdownReturn
  with assms show ?thesis by (auto simp: forgotten_def split: if_splits)
qed

lemma forgotten_run:
  "forgotten j q \<Longrightarrow> queue_run q evs = Some q' \<Longrightarrow> \<forall>p. Add j p \<notin> set evs \<Longrightarrow> forgotten j q'"
proof (induction evs arbitrary: q)
  case Nil
  then show ?case by simp
next
  case (Cons e evs)
  from Cons.prems(2) obtain q1 where q1: "queue_step q e = Some q1" "queue_run q1 evs = Some q'"
    by (auto split: option.splits)
  from Cons.prems(3) have "\<forall>p. e \<noteq> Add j p" "\<forall>p. Add j p \<notin> set evs" by auto
  with forgotten_step[OF Cons.prems(1) q1(1)] Cons.IH[OF _ q1(2)] show ?case by blast
qed

lemma started_step:
  assumes "started a q" and "queue_step q e = Some q'"
  shows "started a q'"
proof (cases e)
  case (Add j' p)
  with assms show ?thesis by (auto simp: started_def add_def)
next
  case (Active j')
  with assms show ?thesis by (auto simp: started_def split: if_splits)
next
  case (Settle j' outcome)
  with assms show ?thesis by (cases "a = j'") (auto simp: started_def split: if_splits)
next
  case ShutdownCall
  with assms show ?thesis by (auto simp: started_def shutdown_call_def)
next
  case ShutdownReturn
  with assms show ?thesis by (auto simp: started_def split: if_splits)
qed

lemma started_run:
  "started a q \<Longrightarrow> queue_run q evs = Some q' \<Longrightarrow> started a q'"
proof (induction evs arbitrary: q)
  case Nil
  then show ?case by simp
next
  case (Cons e evs)
  from Cons.prems(2) obtain q1 where q1: "queue_step q e = Some q1" "queue_run q1 evs = Some q'"
    by (auto split: option.splits)
  from started_step[OF Cons.prems(1) q1(1)] Cons.IH[OF _ q1(2)] show ?case by blast
qed

lemma shutdown_return_idle:
  "queue_step q ShutdownReturn = Some q' \<Longrightarrow>
   pq_running (queue q) = [] \<and> pq_waiting (queue q) = [] \<and> queue q' = queue q \<and> settled q' = settled q"
  by (auto simp: onIdle_def split: if_splits)

lemma one_running_reached:
  "queue_run (new_queue qcfg) [Add 1 None, Add 2 None, Active 1] = Some one_running"
  by (simp add: new_queue_def qcfg_def add_def one_running_def on_active_def)


section \<open>Properties\<close>

subsection \<open>Retry with backoff\<close>

text \<open>
  Claim C5. For every operation and every \<open>maxAttempts = n \<ge> 1\<close>, \<open>withRetry\<close> calls the
  operation \<open>m\<close> times for some \<open>1 \<le> m \<le> n\<close>, the calls numbered \<open>1, ..., m\<close>; all calls
  before the \<open>m\<close>-th failed; a returned value is the result of the \<open>m\<close>-th call, the first
  that succeeded, and a failure is propagated only when \<open>m = n\<close>; and between call \<open>k\<close> and
  call \<open>k + 1\<close> there is exactly one wait, of \<open>min (1000 * 2 ^ (k - 1)) 10000\<close> ms, with no
  other wait before, between or after. In particular, with \<open>n = 3\<close> and an operation that
  fails on calls 1 and 2 and succeeds on call 3, the result is that success, the waits are
  1000 ms and 2000 ms, and the operation is called exactly three times.
\<close>

theorem withRetry_attempts_and_backoff:
  "(1 \<le> n \<longrightarrow>
      (\<exists>m. 1 \<le> m \<and> m \<le> n \<and>
         invocations (snd (withRetry op n c)) = [1..<Suc m] \<and>
         timeline (snd (withRetry op n c)) =
           concat (map (\<lambda>k. [Invoke k, Sleep (min (1000 * 2 ^ (k - 1)) 10000)]) [1..<m]) @ [Invoke m] \<and>
         (\<forall>k. 1 \<le> k \<and> k < m \<longrightarrow> isl (op k)) \<and>
         (case fst (withRetry op n c) of
            Inr v \<Rightarrow> op m = Inr v
          | Inl e \<Rightarrow> m = n \<and> isl (op n)))) \<and>
   (isl (op 1) \<and> isl (op 2) \<and> op 3 = Inr v \<longrightarrow>
      fst (withRetry op 3 c) = Inr v \<and>
      waits (snd (withRetry op 3 c)) = [1000, 2000] \<and>
      invocations (snd (withRetry op 3 c)) = [1, 2, 3])"
proof (intro conjI impI)
  assume n: "1 \<le> n"
  from retry_loop_shape[OF n, of op c None "[]"]
  obtain m where m: "1 \<le> m" "m \<le> n"
    "timeline (snd (withRetry op n c)) = pattern 1 m"
    "\<forall>j. 1 \<le> j \<and> j < m \<longrightarrow> isl (op j)"
    "(case fst (withRetry op n c) of Inr v \<Rightarrow> op m = Inr v
      | Inl e \<Rightarrow> m = n \<and> isl (op n) \<and> e = Some (as_Error (projl (op n))))"
    by (auto simp: withRetry_def)
  have inv: "invocations (snd (withRetry op n c)) = [1..<Suc m]"
    using invocations_pattern[OF m(1)] m(3) invocations_timeline[of "snd (withRetry op n c)"]
    by simp
  have pat: "pattern 1 m =
      concat (map (\<lambda>k. [Invoke k, Sleep (min (1000 * 2 ^ (k - 1)) 10000)]) [1..<m]) @ [Invoke m]"
    by (simp add: pattern_def backoff_def)
  have res: "(case fst (withRetry op n c) of Inr v \<Rightarrow> op m = Inr v | Inl e \<Rightarrow> m = n \<and> isl (op n))"
    using m(5) by (cases "fst (withRetry op n c)") auto
  show "\<exists>m. 1 \<le> m \<and> m \<le> n \<and>
         invocations (snd (withRetry op n c)) = [1..<Suc m] \<and>
         timeline (snd (withRetry op n c)) =
           concat (map (\<lambda>k. [Invoke k, Sleep (min (1000 * 2 ^ (k - 1)) 10000)]) [1..<m]) @ [Invoke m] \<and>
         (\<forall>k. 1 \<le> k \<and> k < m \<longrightarrow> isl (op k)) \<and>
         (case fst (withRetry op n c) of
            Inr v \<Rightarrow> op m = Inr v
          | Inl e \<Rightarrow> m = n \<and> isl (op n))"
    using m(1,2,4) inv m(3) pat res by (intro exI[of _ m]) simp
next
  assume a: "isl (op 1) \<and> isl (op 2) \<and> op 3 = Inr v"
  then obtain e1 e2 where e: "op 1 = Inl e1" "op 2 = Inl e2" "op 3 = Inr v"
    by (cases "op 1"; cases "op 2") auto
  have e': "op (Suc 0) = Inl e1" "op (Suc (Suc 0)) = Inl e2" "op (Suc (Suc (Suc 0))) = Inr v"
    using e by (simp_all add: numeral_2_eq_2 numeral_3_eq_3)
  have run: "withRetry op 3 c =
      (Inr v, [LogDebug c 1 3, Invoke 1, LogWarn c 1 3 (message (as_Error e1)), Sleep 1000,
               LogDebug c 2 3, Invoke 2, LogWarn c 2 3 (message (as_Error e2)), Sleep 2000,
               LogDebug c 3 3, Invoke 3])"
    using e e' by (simp add: withRetry_def retry_loop.simps[of op 3 c] backoff_def Let_def)
  show "fst (withRetry op 3 c) = Inr v" by (simp add: run)
  show "waits (snd (withRetry op 3 c)) = [1000, 2000]" by (simp add: run)
  show "invocations (snd (withRetry op 3 c)) = [1, 2, 3]" by (simp add: run)
qed

theorem withRetry_attempts_and_backoff_witness:
  "(1::nat) \<le> 3 \<and> isl (flaky3 1) \<and> isl (flaky3 2) \<and> flaky3 3 = Inr ''ok'' \<and>
   fst (withRetry flaky3 3 ''q7x2'') = Inr ''ok'' \<and>
   waits (snd (withRetry flaky3 3 ''q7x2'')) = [1000, 2000] \<and>
   invocations (snd (withRetry flaky3 3 ''q7x2'')) = [1, 2, 3]"
  using withRetry_attempts_and_backoff [of 3 flaky3 "''q7x2''" "''ok''"]
  by (simp add: flaky3_def)

text \<open>
  Claim C6, as it stands, fails: the failure that \<open>withRetry\<close> propagates is the error
  object of the last attempt and nothing else. An operation that always throws
  \<open>Error('boom')\<close> gives the same propagated value under two different correlation ids
  and under one or two attempts, so the value carries neither.
\<close>

theorem withRetry_failure_not_annotated:
  "fst (withRetry always_failing 2 ''q7x2'') = Inl (Some (ErrorObj ''boom'')) \<and>
   fst (withRetry always_failing 2 ''m3k9'') = Inl (Some (ErrorObj ''boom'')) \<and>
   fst (withRetry always_failing 1 ''q7x2'') = Inl (Some (ErrorObj ''boom''))"
  by (simp add: withRetry_def retry_loop.simps always_failing_def Let_def)

text \<open>
  Claim C6, amended. If all \<open>n \<ge> 1\<close> attempts fail, \<open>withRetry\<close> has called the operation
  exactly \<open>n\<close> times and propagates the failure of the \<open>n\<close>-th call, as an \<open>Error\<close>
  (a thrown value that is not an \<open>Error\<close> is wrapped into one with the same text). The
  propagated failure does not depend on the correlation id; the correlation id and the
  attempt count go to the log only, the last entry being the warning for attempt \<open>n\<close> of
  \<open>n\<close> with that id and the error's message.
\<close>

theorem withRetry_propagates_last_failure:
  "1 \<le> n \<Longrightarrow> \<forall>k. 1 \<le> k \<and> k \<le> n \<longrightarrow> isl (op k) \<Longrightarrow>
   fst (withRetry op n c) = Inl (Some (as_Error (projl (op n)))) \<and>
   fst (withRetry op n c') = fst (withRetry op n c) \<and>
   invocations (snd (withRetry op n c)) = [1..<Suc n] \<and>
   last (snd (withRetry op n c)) = LogWarn c n n (message (as_Error (projl (op n))))"
proof -
  assume n: "1 \<le> n" and fails: "\<forall>k. 1 \<le> k \<and> k \<le> n \<longrightarrow> isl (op k)"
  have res: "fst (withRetry op n d) = Inl (Some (as_Error (projl (op n))))" for d
  proof -
    from retry_loop_shape[OF n, of op d None "[]"]
    obtain m where m: "1 \<le> m" "m \<le> n"
      "(case fst (withRetry op n d) of Inr v \<Rightarrow> op m = Inr v
        | Inl e \<Rightarrow> m = n \<and> isl (op n) \<and> e = Some (as_Error (projl (op n))))"
      by (auto simp: withRetry_def)
    from fails m(1,2) have "isl (op m)" by simp
    with m(3) show ?thesis
      by (cases "fst (withRetry op n d)") auto
  qed
  from retry_loop_shape[OF n, of op c None "[]"]
  obtain m where m: "1 \<le> m" "m \<le> n" "timeline (snd (withRetry op n c)) = pattern 1 m"
      "(case fst (withRetry op n c) of Inr v \<Rightarrow> op m = Inr v
        | Inl e \<Rightarrow> m = n \<and> isl (op n) \<and> e = Some (as_Error (projl (op n))))"
    by (auto simp: withRetry_def)
  from m(4) res[of c] have "m = n" by simp
  with m(3) invocations_pattern[OF n] invocations_timeline[of "snd (withRetry op n c)"]
  have inv: "invocations (snd (withRetry op n c)) = [1..<Suc n]" by simp
  have lw: "last (snd (withRetry op n c)) = LogWarn c n n (message (as_Error (projl (op n))))"
    using retry_loop_last_warn[OF n fails] by (simp add: withRetry_def)
  show ?thesis using res inv lw by simp
qed

theorem withRetry_propagates_last_failure_witness:
  "(1::nat) \<le> 2 \<and> isl (always_failing 1) \<and> isl (always_failing 2) \<and>
   fst (withRetry always_failing 2 ''q7x2'') = Inl (Some (ErrorObj ''boom'')) \<and>
   invocations (snd (withRetry always_failing 2 ''q7x2'')) = [1, 2] \<and>
   last (snd (withRetry always_failing 2 ''q7x2'')) = LogWarn ''q7x2'' 2 2 ''boom''"
  using withRetry_propagates_last_failure [of 2 always_failing "''q7x2''" "''q7x2''"]
  by (simp add: always_failing_def upt_conv_Cons)

subsection \<open>Health aggregation\<close>

text \<open>
  Claim C7. For every combination of the statuses of redis, instagram_queue, browser_pool
  and the optional playwright probe (absent counts as healthy): if any of them is
  unhealthy the overall status is unhealthy; otherwise, if any of them is degraded the
  overall status is degraded; otherwise it is healthy.
\<close>

theorem determineOverallStatus_ordered:
  "determineOverallStatus s =
     (if redis s = Unhealthy \<or> instagram_queue s = Unhealthy \<or> browser_pool s = Unhealthy \<or>
         playwright s = Some Unhealthy
      then Unhealthy
      else if redis s = Degraded \<or> instagram_queue s = Degraded \<or> browser_pool s = Degraded \<or>
         playwright s = Some Degraded
      then Degraded
      else Healthy)"
  by (cases "playwright s") (auto simp: determineOverallStatus_def)

subsection \<open>Browser pool\<close>

text \<open>
  Claim C1 asks that at most \<open>poolSize\<close> instances exist at any time, also when more
  acquisitions than that are issued together. A call that runs alone keeps the bound
  (\<open>sequential_acquire_keeps_bound\<close>); overlapping calls do not. Here two calls of
  \<open>getBrowserContext\<close> are issued together on an empty pool of capacity one. Each finds no idle instance and a map
  of size 0, so each starts a launch; the instance is entered into the map only when its
  launch has ended, and the map ends with two instances, both active.
\<close>

theorem overlapping_launches_exceed_poolSize:
  "poolSize cfg1 = 1 \<and>
   launching (pool_run cfg1 new_system [Get None ''k3f9a'' 0, Get None ''p0q8z'' 1])
     = [(''k3f9a'', None), (''p0q8z'', None)] \<and>
   map (\<lambda>(k, i). (k, isActive i))
     (instances (the_pool (pool_run cfg1 new_system
        [Get None ''k3f9a'' 0, Get None ''p0q8z'' 1,
         Launched ''k3f9a'' None 900, Launched ''p0q8z'' None 950])))
     = [(''k3f9a'', True), (''p0q8z'', True)] \<and>
   totalInstances (getStats cfg1 (the_pool (pool_run cfg1 new_system
        [Get None ''k3f9a'' 0, Get None ''p0q8z'' 1,
         Launched ''k3f9a'' None 900, Launched ''p0q8z'' None 950])) 1000) = 2"
  by (simp add: pool_run_def new_system_def new_pool_def cfg1_def getBrowserContext_begin_def
        findAvailableInstance_def createBrowserInstance_def Let_def truthy_def getStats_def)

text \<open>
  Claim C8 asks that a Session reused for a call with a proxy was launched with that
  proxy. The launch of a new instance does pass the proxy on: on an empty pool a call
  with proxy-b ends with a browser launched through proxy-b. The reuse does not look at
  it: the pool holds one idle instance launched through proxy-a, and a call with proxy-b
  returns that very instance, marked active.
\<close>

theorem reuse_returns_instance_of_other_proxy:
  "fst (getBrowserContext cfg3 pool_ab (Some ''http://proxy-b:8080'') ''x1y2z'' None 7000 [])
     = Inr (ContextOf ''k3f9a'', ''k3f9a'') \<and>
   map_of (instances pool_ab) ''k3f9a'' = Some idle_a \<and>
   browser idle_a = Some ''http://proxy-a:8080'' \<and>
   map_of (instances (snd (getBrowserContext cfg3 pool_ab (Some ''http://proxy-b:8080'')
       ''x1y2z'' None 7000 []))) ''k3f9a''
     = Some (idle_a\<lparr>lastUsed := 7000, isActive := True\<rparr>) \<and>
   map (\<lambda>(k, i). (k, browser i))
     (instances (snd (getBrowserContext cfg3 new_pool (Some ''http://proxy-b:8080'')
        ''x1y2z'' None 7000 [])))
     = [(''x1y2z'', Some ''http://proxy-b:8080'')]"
  by (simp add: getBrowserContext_def getBrowserContext_begin_def findAvailableInstance_def
        pool_ab_def idle_a_def busy_b_def cfg3_def store_def new_pool_def
        createBrowserInstance_def truthy_def Let_def)

text \<open>
  Claim C9 asks that a sweep never destroys a busy Session. The sweep reads \<open>isActive\<close>
  once, when it collects the ids, and then awaits the closes. Here the pool holds the idle
  instance k3f9a, unused for longer than \<open>idleTimeout\<close>, and the busy instance p0q8z.
  The sweep starts and collects k3f9a; while it awaits the close, a call of
  \<open>getBrowserContext\<close> finds k3f9a idle, marks it active and returns it; then the close
  ends and the sweep deletes k3f9a: an instance that is active and in a caller's hands has
  its browser closed and leaves the map. Also, when closing the context throws, the
  instance leaves the map while its browser is never closed.
\<close>

theorem sweep_closes_instance_acquired_meanwhile:
  "sweeps (pool_run cfg3 sys_ab [SweepStart 400000]) = [[''k3f9a'']] \<and>
   fst (getBrowserContext_begin cfg3 (the_pool (pool_run cfg3 sys_ab [SweepStart 400000]))
          None ''x1y2z'' 400050)
     = Returns (ContextOf ''k3f9a'') ''k3f9a'' \<and>
   map (\<lambda>(k, i). (k, isActive i))
     (instances (the_pool (pool_run cfg3 sys_ab [SweepStart 400000, Get None ''x1y2z'' 400050])))
     = [(''k3f9a'', True), (''p0q8z'', True)] \<and>
   map fst (instances (the_pool (pool_run cfg3 sys_ab
       [SweepStart 400000, Get None ''x1y2z'' 400050, SweepClosed 0 Closed])))
     = [''p0q8z''] \<and>
   closedBrowsers (pool_run cfg3 sys_ab
       [SweepStart 400000, Get None ''x1y2z'' 400050, SweepClosed 0 Closed])
     = [''k3f9a''] \<and>
   map fst (instances (the_pool (pool_run cfg3 sys_ab
       [SweepStart 400000, SweepClosed 0 (ContextCloseThrows (ErrorObj ''Target closed''))])))
     = [''p0q8z''] \<and>
   closedBrowsers (pool_run cfg3 sys_ab
       [SweepStart 400000, SweepClosed 0 (ContextCloseThrows (ErrorObj ''Target closed''))])
     = []"
  by (simp add: pool_run_def sys_ab_def new_system_def pool_ab_def idle_a_def busy_b_def cfg3_def
        cleanupIdleInstances_begin_def instancesToCleanup_def cleanupIdleInstances_resume_def
        closeBrowserInstance_end_def delete_instance_def closeBrowserInstance_begin_def
        getBrowserContext_begin_def findAvailableInstance_def store_def Let_def)

text \<open>
  Claim C10. When the acquisition in \<open>withBrowserContext\<close> has returned an instance id,
  that instance is active in the pool; whatever the task's outcome, a result or an error,
  \<open>withBrowserContext\<close> ends with exactly that outcome, and if the instance is still in
  the map when the task settles it is afterwards not active, with its last-used timestamp
  set to the time of the release. So the instance is not left active by a task that fails.
\<close>

theorem withBrowserContext_releases:
  assumes "getBrowserContext cfg st proxy i launch now ticks = (Inr (c, k), st1)"
    and "task c st1 = (outcome, st2)"
  shows "fst (withBrowserContext cfg st task proxy i launch now ticks released) = outcome \<and>
         (\<exists>inst. map_of (instances st1) k = Some inst \<and> isActive inst) \<and>
         (\<forall>inst. map_of (instances st2) k = Some inst \<longrightarrow>
            map_of (instances (snd (withBrowserContext cfg st task proxy i launch now ticks released))) k
              = Some (inst\<lparr>isActive := False, lastUsed := released\<rparr>)) \<and>
         (\<forall>inst. map_of (instances (snd (withBrowserContext cfg st task proxy i launch now ticks released))) k
              = Some inst \<longrightarrow> \<not> isActive inst)"
proof -
  have w: "withBrowserContext cfg st task proxy i launch now ticks released =
        (outcome, releaseBrowserContext st2 k released)"
    using assms by (simp add: withBrowserContext_def)
  have busy: "\<exists>inst. map_of (instances st1) k = Some inst \<and> isActive inst"
    using getBrowserContext_busy[OF assms(1)] by blast
  have rel: "map_of (instances (releaseBrowserContext st2 k released)) k =
        (case map_of (instances st2) k of None \<Rightarrow> None
         | Some inst \<Rightarrow> Some (inst\<lparr>isActive := False, lastUsed := released\<rparr>))"
    by (cases "map_of (instances st2) k") (simp_all add: releaseBrowserContext_def update_conv')
  show ?thesis
    using busy by (auto simp: w rel split: option.splits)
qed

theorem withBrowserContext_releases_witness:
  "getBrowserContext cfg3 pool_ab None ''x1y2z'' None 7000 []
     = (Inr (ContextOf ''k3f9a'', ''k3f9a''),
        store pool_ab (idle_a\<lparr>lastUsed := 7000, isActive := True\<rparr>)) \<and>
   fst (withBrowserContext cfg3 pool_ab failing_task None ''x1y2z'' None 7000 [] 9000)
     = Inl (ErrorObj ''Navigation failed'') \<and>
   map_of (instances (snd (withBrowserContext cfg3 pool_ab failing_task None ''x1y2z'' None
       7000 [] 9000))) ''k3f9a''
     = Some (idle_a\<lparr>lastUsed := 9000\<rparr>)"
proof -
  have a: "getBrowserContext cfg3 pool_ab None ''x1y2z'' None 7000 []
     = (Inr (ContextOf ''k3f9a'', ''k3f9a''),
        store pool_ab (idle_a\<lparr>lastUsed := 7000, isActive := True\<rparr>))"
    by (simp add: getBrowserContext_def getBrowserContext_begin_def findAvailableInstance_def
          pool_ab_def idle_a_def busy_b_def)
  have t: "failing_task (ContextOf ''k3f9a'') (store pool_ab (idle_a\<lparr>lastUsed := 7000, isActive := True\<rparr>))
     = (Inl (ErrorObj ''Navigation failed''), store pool_ab (idle_a\<lparr>lastUsed := 7000, isActive := True\<rparr>))"
    by (simp add: failing_task_def)
  have m: "map_of (instances (store pool_ab (idle_a\<lparr>lastUsed := 7000, isActive := True\<rparr>))) ''k3f9a''
     = Some (idle_a\<lparr>lastUsed := 7000, isActive := True\<rparr>)"
    by (simp add: store_def pool_ab_def idle_a_def)
  from withBrowserContext_releases[where task = failing_task and released = 9000, OF a t] a m
  show ?thesis by (simp add: idle_a_def)
qed

subsection \<open>Shutdown\<close>

text \<open>
  Claim C3, as it stands, fails for the queue: \<open>InstagramQueue\<close> keeps no shutting-down
  state, and a task added after \<open>shutdown\<close> has returned is queued, started and served
  like any other; its caller receives the task's result.
\<close>

theorem add_after_shutdown_is_served:
  "map_option settled
     (queue_run (new_queue qcfg) [ShutdownCall, ShutdownReturn, Add 7 None, Active 7,
        Settle 7 (Inr ''profile'')])
   = Some [(7, Inr ''profile'')]"
  by (simp add: new_queue_def qcfg_def add_def on_active_def shutdown_call_def on_completed_def
        onIdle_def)

text \<open>
  Claim C3, amended. Once \<open>shutdown\<close> of the pool has been called, whatever happens to
  the pool next, every call of \<open>getBrowserContext\<close> throws
  \<open>Browser pool is shutting down\<close> at once; and the pool's \<open>shutdown\<close> returns only
  after, for every instance that was in the map at the call, the close it started has
  ended and the instance has been deleted from the map at that moment. The queue has no
  shutting-down state: once its \<open>shutdown\<close> has returned, a task that is added is
  queued, started and its outcome delivered to the caller. The queue's \<open>shutdown\<close>
  returns only after every job that was running at the call has delivered its outcome.
\<close>

theorem shutdown_refuses_pool_acquisitions:
  "fst (getBrowserContext_begin cfg
          (the_pool (pool_run cfg (pool_step cfg sys ShutdownStart) evs)) proxy i now)
     = Throws (ErrorObj ''Browser pool is shutting down'') \<and>
   fst (getBrowserContext cfg
          (the_pool (pool_run cfg (pool_step cfg sys ShutdownStart) evs)) proxy i launch now ticks)
     = Inl (ErrorObj ''Browser pool is shutting down'') \<and>
   (k \<in> fst ` set (instances (the_pool sys)) \<and>
    shutdown_returns (pool_run cfg (pool_step cfg sys ShutdownStart) evs) (length (shutdowns sys))
    \<longrightarrow>
      (\<exists>pre outcome post.
         evs = pre @ ShutdownClosed (length (shutdowns sys)) k outcome # post \<and>
         k \<notin> fst ` set (instances (the_pool (pool_run cfg (pool_step cfg sys ShutdownStart)
                 (pre @ [ShutdownClosed (length (shutdowns sys)) k outcome])))))) \<and>
   (queue_step q ShutdownReturn = Some q' \<and> 0 < pq_concurrency (queue q) \<longrightarrow>
      queue_run q' [Add j p, Active j, Settle j result]
        = Some (q'\<lparr>stats := (case result of
                                 Inr r \<Rightarrow> on_completed (on_active (stats q'))
                               | Inl e \<Rightarrow> on_error (on_active (stats q'))),
                    settled := settled q' @ [(j, result)]\<rparr>)) \<and>
   (queue_run (shutdown_call q0) qevs = Some q1 \<and> queue_step q1 ShutdownReturn = Some q2 \<longrightarrow>
      (\<forall>a \<in> set (pq_running (queue q0)). a \<in> fst ` set (settled q2)))"
proof (intro conjI impI ballI)
  let ?s1 = "pool_step cfg sys ShutdownStart"
  have "isShuttingDown (the_pool ?s1)"
    by (simp add: shutdown_begin_def)
  then have sd: "isShuttingDown (the_pool (pool_run cfg ?s1 evs))"
    by (rule pool_run_keeps_shutting_down)
  have b: "getBrowserContext_begin cfg (the_pool (pool_run cfg ?s1 evs)) proxy i now
     = (Throws (ErrorObj ''Browser pool is shutting down''), the_pool (pool_run cfg ?s1 evs))"
    using sd by (rule getBrowserContext_begin_shutting_down)
  show "fst (getBrowserContext_begin cfg (the_pool (pool_run cfg ?s1 evs)) proxy i now)
     = Throws (ErrorObj ''Browser pool is shutting down'')"
    using b by (simp del: pool_step.simps)
  show "fst (getBrowserContext cfg (the_pool (pool_run cfg ?s1 evs)) proxy i launch now ticks)
     = Inl (ErrorObj ''Browser pool is shutting down'')"
    using b by (simp add: getBrowserContext_def del: pool_step.simps)
next
  let ?s1 = "pool_step cfg sys ShutdownStart"
  let ?n = "length (shutdowns sys)"
  assume a: "k \<in> fst ` set (instances (the_pool sys)) \<and> shutdown_returns (pool_run cfg ?s1 evs) ?n"
  have n: "?n < length (shutdowns ?s1)" and pending: "k \<in> set (shutdowns ?s1 ! ?n)"
    using a by (simp_all add: shutdown_begin_def)
  from a have "k \<notin> set (shutdowns (pool_run cfg ?s1 evs) ! ?n)"
    by (simp add: shutdown_returns_def del: pool_step.simps)
  with shutdown_pending_or_closed[OF n pending, of cfg evs]
  show "\<exists>pre outcome post.
         evs = pre @ ShutdownClosed ?n k outcome # post \<and>
         k \<notin> fst ` set (instances (the_pool (pool_run cfg ?s1 (pre @ [ShutdownClosed ?n k outcome]))))"
    by blast
next
  assume a: "queue_step q ShutdownReturn = Some q' \<and> 0 < pq_concurrency (queue q)"
  with shutdown_return_idle[of q q'] have idle: "pq_running (queue q') = []"
      "pq_waiting (queue q') = []" "0 < pq_concurrency (queue q')"
    by simp_all
  show "queue_run q' [Add j p, Active j, Settle j result]
        = Some (q'\<lparr>stats := (case result of
                                 Inr r \<Rightarrow> on_completed (on_active (stats q'))
                               | Inl e \<Rightarrow> on_error (on_active (stats q'))),
                    settled := settled q' @ [(j, result)]\<rparr>)"
    using idle by (cases result) (simp_all add: add_def)
next
  fix a
  assume r: "queue_run (shutdown_call q0) qevs = Some q1 \<and> queue_step q1 ShutdownReturn = Some q2"
    and a: "a \<in> set (pq_running (queue q0))"
  from a have "started a (shutdown_call q0)" by (simp add: started_def shutdown_call_def)
  with r have "started a q1" by (blast intro: started_run)
  with r shutdown_return_idle[of q1 q2] show "a \<in> fst ` set (settled q2)"
    by (simp add: started_def)
qed

theorem shutdown_refuses_pool_acquisitions_witness:
  "shutdown_returns (pool_run cfg3 (pool_step cfg3 sys_ab ShutdownStart)
       [ShutdownClosed 0 ''p0q8z'' (ContextCloseThrows (ErrorObj ''Target closed'')),
        Release ''k3f9a'' 9000, ShutdownClosed 0 ''k3f9a'' Closed]) 0 \<and>
   ''k3f9a'' \<in> fst ` set (instances (the_pool sys_ab)) \<and>
   fst (getBrowserContext_begin cfg3
          (the_pool (pool_run cfg3 (pool_step cfg3 sys_ab ShutdownStart)
             [ShutdownClosed 0 ''p0q8z'' (ContextCloseThrows (ErrorObj ''Target closed'')),
              Release ''k3f9a'' 9000, ShutdownClosed 0 ''k3f9a'' Closed]))
          None ''x1y2z'' 9500)
     = Throws (ErrorObj ''Browser pool is shutting down'') \<and>
   queue_step drained ShutdownReturn = Some (drained\<lparr>draining := 0\<rparr>) \<and>
   0 < pq_concurrency (queue drained) \<and>
   queue_run (drained\<lparr>draining := 0\<rparr>) [Add 7 None, Active 7, Settle 7 (Inr ''profile'')]
     = Some (drained\<lparr>draining := 0,
                     stats := \<lparr>totalProcessed = 2, totalErrors = 0, currentActive = 0, peakActive = 1\<rparr>,
                     settled := [(1, Inr ''profile''), (7, Inr ''profile'')]\<rparr>) \<and>
   queue_run (shutdown_call one_running) [Settle 1 (Inr ''profile'')] = Some drained \<and>
   1 \<in> fst ` set (settled (drained\<lparr>draining := 0\<rparr>))"
proof -
  let ?evs = "[ShutdownClosed 0 ''p0q8z'' (ContextCloseThrows (ErrorObj ''Target closed'')),
        Release ''k3f9a'' 9000, ShutdownClosed 0 ''k3f9a'' Closed]"
  have ret: "shutdown_returns (pool_run cfg3 (pool_step cfg3 sys_ab ShutdownStart) ?evs) 0"
    by (simp add: pool_run_def sys_ab_def new_system_def pool_ab_def shutdown_begin_def
          shutdown_closed_def closeBrowserInstance_end_def delete_instance_def
          releaseBrowserContext_def shutdown_returns_def idle_a_def busy_b_def)
  have k: "''k3f9a'' \<in> fst ` set (instances (the_pool sys_ab))"
    by (simp add: sys_ab_def new_system_def pool_ab_def)
  have qret: "queue_step drained ShutdownReturn = Some (drained\<lparr>draining := 0\<rparr>)"
    by (simp add: drained_def onIdle_def)
  have c: "0 < pq_concurrency (queue drained)"
    by (simp add: drained_def)
  have run: "queue_run (shutdown_call one_running) [Settle 1 (Inr ''profile'')] = Some drained"
    by (simp add: shutdown_call_def one_running_def drained_def on_completed_def)
  have l: "length (shutdowns sys_ab) = 0"
    by (simp add: sys_ab_def new_system_def)
  from shutdown_refuses_pool_acquisitions
         [of cfg3 sys_ab ?evs None "''x1y2z''" 9500 None "[]" "''k3f9a''"
             drained "drained\<lparr>draining := 0\<rparr>" 7 None "Inr ''profile''"
             one_running "[Settle 1 (Inr ''profile'')]" drained]
       ret k qret c run l
  show ?thesis
    by (simp add: drained_def one_running_def on_active_def on_completed_def
          del: pool_step.simps queue_step.simps queue_run.simps)
qed

text \<open>
  Claim C4, as it stands, fails: \<open>shutdown\<close> empties the queue with \<open>queue.clear()\<close>
  and sends nothing to the callers of the dropped jobs. Job 2 is waiting behind the
  running job 1 when \<open>shutdown\<close> is called; when \<open>shutdown\<close> has returned, the only
  outcome delivered is the one of job 1.
\<close>

theorem queue_shutdown_sends_no_failure:
  "queue_run (new_queue qcfg) [Add 1 None, Add 2 None, Active 1, ShutdownCall,
      Settle 1 (Inr ''profile''), ShutdownReturn] = Some (drained\<lparr>draining := 0\<rparr>) \<and>
   settled (drained\<lparr>draining := 0\<rparr>) = [(1, Inr ''profile'')]"
  by (simp add: new_queue_def qcfg_def add_def on_active_def shutdown_call_def on_completed_def
        onIdle_def drained_def)

text \<open>
  Claim C4, amended. When \<open>shutdown\<close> is called while a job is waiting, the waiting jobs
  are dropped from the queue and the running ones are left alone; unless it is added
  again, a dropped job is never started and its caller never receives anything, neither a
  result nor a failure; and \<open>shutdown\<close> returns only in a state where no job is running
  or waiting, every job that was running at the call having delivered its outcome.
\<close>

theorem queue_shutdown_drops_waiting_jobs:
  assumes "j \<in> fst ` set (pq_waiting (queue q))" and "j \<notin> set (pq_running (queue q))"
    and "j \<notin> fst ` set (settled q)"
    and "\<forall>p. Add j p \<notin> set evs" and "queue_run (shutdown_call q) evs = Some q'"
  shows "pq_waiting (queue (shutdown_call q)) = [] \<and>
         pq_running (queue (shutdown_call q)) = pq_running (queue q) \<and>
         settled (shutdown_call q) = settled q \<and>
         map_of (settled q') j = None \<and> j \<notin> set (pq_running (queue q')) \<and>
         (\<forall>q''. queue_step q' ShutdownReturn = Some q'' \<longrightarrow>
            pq_running (queue q') = [] \<and> pq_waiting (queue q') = [] \<and>
            (\<forall>a \<in> set (pq_running (queue q)). a \<in> fst ` set (settled q'')))"
proof -
  have f0: "forgotten j (shutdown_call q)"
    using assms(2,3) by (simp add: forgotten_def shutdown_call_def)
  have f: "forgotten j q'"
    by (rule forgotten_run[OF f0 assms(5) assms(4)])
  then have s: "map_of (settled q') j = None" "j \<notin> set (pq_running (queue q'))"
    by (simp_all add: forgotten_def map_of_eq_None_iff)
  have r: "a \<in> fst ` set (settled q'')"
    if "queue_step q' ShutdownReturn = Some q''" and "a \<in> set (pq_running (queue q))" for q'' a
  proof -
    from that(2) have "started a (shutdown_call q)" by (simp add: started_def shutdown_call_def)
    then have "started a q'" using assms(5) by (rule started_run)
    with shutdown_return_idle[OF that(1)] show ?thesis by (simp add: started_def)
  qed
  have c: "pq_waiting (queue (shutdown_call q)) = []"
      "pq_running (queue (shutdown_call q)) = pq_running (queue q)"
      "settled (shutdown_call q) = settled q"
    by (simp_all add: shutdown_call_def)
  have i: "pq_running (queue q') = [] \<and> pq_waiting (queue q') = []"
    if "queue_step q' ShutdownReturn = Some q''" for q''
    using shutdown_return_idle[OF that] by simp
  show ?thesis
    using c s r i by blast
qed

theorem queue_shutdown_drops_waiting_jobs_witness:
  "2 \<in> fst ` set (pq_waiting (queue one_running)) \<and>
   queue_run (shutdown_call one_running) [Settle 1 (Inr ''profile'')] = Some drained \<and>
   map_of (settled drained) 2 = None \<and>
   queue_step drained ShutdownReturn = Some (drained\<lparr>draining := 0\<rparr>) \<and>
   1 \<in> fst ` set (settled (drained\<lparr>draining := 0\<rparr>))"
proof -
  have h: "2 \<in> fst ` set (pq_waiting (queue one_running))"
      "2 \<notin> set (pq_running (queue one_running))" "2 \<notin> fst ` set (settled one_running)"
      "\<forall>p. Add 2 p \<notin> set [Settle 1 (Inr ''profile'') :: string queue_event]"
    by (simp_all add: one_running_def)
  have run: "queue_run (shutdown_call one_running) [Settle 1 (Inr ''profile'')] = Some drained"
    by (simp add: shutdown_call_def one_running_def drained_def on_completed_def)
  have ret: "queue_step drained ShutdownReturn = Some (drained\<lparr>draining := 0\<rparr>)"
    by (simp add: drained_def onIdle_def)
  from queue_shutdown_drops_waiting_jobs[OF h run] ret h(1) run
  show ?thesis by (simp add: one_running_def)
qed

end
